theory Spec2Isabelle
  imports Main "HOL-Library.Char_ord" "HOL-Library.List_Lexorder" "HOL-Library.Multiset"
    "HOL-Library.Sublist"
begin

section \<open>Go strings: bytes, UTF-8 and case folding\<close>

text \<open>
  A Go string is a sequence of bytes; \<^typ>\<open>string\<close> is a list of 8-bit characters, so
  \<open>length\<close> is Go's \<open>len\<close> and \<open>take i w\<close> is the slice \<open>w[:i]\<close> (for \<open>i \<le> len(w)\<close>).
  With \<open>Char_ord\<close> and \<open>List_Lexorder\<close> the order on \<^typ>\<open>string\<close> is the bytewise
  lexicographic order, which is Go's comparison of strings, so \<open>sort\<close> returns what
  \<open>sort.Strings\<close> leaves in the slice.

  The program calls \<open>strings.ToLower\<close> and \<open>strings.HasPrefix\<close> of Go's standard
  library. They are modelled here after the library: \<open>ToLower\<close> has a fast path for
  ASCII-only strings and otherwise is \<open>strings.Map(unicode.ToLower, s)\<close>, which decodes
  the string rune by rune (an invalid byte decodes as \<open>RuneError\<close> of width 1) and
  writes the UTF-8 encoding of every mapped rune. \<open>unicode.ToLower\<close> is the ASCII rule
  below U+0080 and a lookup in the table \<open>unicode.CaseRanges\<close> above; that table is not
  part of the program and is a parameter \<open>tbl\<close> of the model (a rune is a natural
  number; the table never returns a negative rune).
\<close>

type_synonym rune = nat

definition RuneError :: rune where
  "RuneError = 0xFFFD"

text \<open>The table \<open>first\<close> with \<open>acceptRanges\<close> of package \<open>utf8\<close>: for a leading byte of a
  multi-byte sequence, the length of the sequence and the range of the second byte.\<close>

definition accept :: "nat \<Rightarrow> (nat \<times> nat \<times> nat) option" where
  "accept s0 =
     (if 0xC2 \<le> s0 \<and> s0 \<le> 0xDF then Some (2, 0x80, 0xBF)
      else if s0 = 0xE0 then Some (3, 0xA0, 0xBF)
      else if 0xE1 \<le> s0 \<and> s0 \<le> 0xEC then Some (3, 0x80, 0xBF)
      else if s0 = 0xED then Some (3, 0x80, 0x9F)
      else if 0xEE \<le> s0 \<and> s0 \<le> 0xEF then Some (3, 0x80, 0xBF)
      else if s0 = 0xF0 then Some (4, 0x90, 0xBF)
      else if 0xF1 \<le> s0 \<and> s0 \<le> 0xF3 then Some (4, 0x80, 0xBF)
      else if s0 = 0xF4 then Some (4, 0x80, 0x8F)
      else None)"

text \<open>\<open>utf8.DecodeRuneInString\<close>: the first rune of \<open>s\<close> and its width in bytes.\<close>

definition DecodeRune :: "string \<Rightarrow> rune \<times> nat" where
  "DecodeRune s =
     (if length s < 1 then (RuneError, 0)
      else let s0 = of_char (s ! 0) :: nat in
        if s0 < 0x80 then (s0, 1)
        else case accept s0 of
          None \<Rightarrow> (RuneError, 1)
        | Some (sz, lo, hi) \<Rightarrow>
            if length s < sz then (RuneError, 1)
            else let s1 = of_char (s ! 1) :: nat in
              if s1 < lo \<or> hi < s1 then (RuneError, 1)
              else if sz \<le> 2 then ((s0 mod 32) * 64 + s1 mod 64, 2)
              else let s2 = of_char (s ! 2) :: nat in
                if s2 < 0x80 \<or> 0xBF < s2 then (RuneError, 1)
                else if sz \<le> 3 then ((s0 mod 16) * 4096 + (s1 mod 64) * 64 + s2 mod 64, 3)
                else let s3 = of_char (s ! 3) :: nat in
                  if s3 < 0x80 \<or> 0xBF < s3 then (RuneError, 1)
                  else ((s0 mod 8) * 262144 + (s1 mod 64) * 4096 + (s2 mod 64) * 64
                          + s3 mod 64, 4))"

text \<open>\<open>utf8.AppendRune\<close>: the UTF-8 encoding of a rune; a surrogate or a value above
  U+10FFFF is written as \<open>RuneError\<close>.\<close>

definition EncodeRune :: "rune \<Rightarrow> string" where
  "EncodeRune r =
     (if r \<le> 0x7F then [char_of r]
      else if r \<le> 0x7FF then [char_of (0xC0 + r div 64), char_of (0x80 + r mod 64)]
      else if 0x10FFFF < r \<or> (0xD800 \<le> r \<and> r \<le> 0xDFFF) then [CHR 0xEF, CHR 0xBF, CHR 0xBD]
      else if r \<le> 0xFFFF then
        [char_of (0xE0 + r div 4096), char_of (0x80 + (r div 64) mod 64),
         char_of (0x80 + r mod 64)]
      else
        [char_of (0xF0 + r div 262144), char_of (0x80 + (r div 4096) mod 64),
         char_of (0x80 + (r div 64) mod 64), char_of (0x80 + r mod 64)])"

text \<open>The runes that \<open>for _, c := range s\<close> yields.\<close>

function runes :: "string \<Rightarrow> rune list" where
  "runes s = (if s = [] then [] else fst (DecodeRune s) # runes (drop (snd (DecodeRune s)) s))"
  by pat_completeness auto
termination
  by (relation "measure length") (auto simp: DecodeRune_def Let_def split: option.splits)

declare runes.simps [simp del]

text \<open>The lengths \<open>k\<close> at which the slice \<open>s[:k]\<close> ends with a whole rune of \<open>s\<close>: the
  offsets at which \<open>range s\<close> starts its next iteration, and \<open>len(s)\<close>.\<close>

function rune_ends :: "string \<Rightarrow> nat list" where
  "rune_ends s =
     (if s = [] then []
      else snd (DecodeRune s) # map (\<lambda>k. snd (DecodeRune s) + k) (rune_ends (drop (snd (DecodeRune s)) s)))"
  by pat_completeness auto
termination
  by (relation "measure length") (auto simp: DecodeRune_def Let_def split: option.splits)

declare rune_ends.simps [simp del]

text \<open>\<open>strings.Map\<close>: every rune of \<open>s\<close> is replaced by the encoding of its image (a valid
  rune that the mapping leaves unchanged is copied, which is the same bytes).\<close>

definition strings_Map :: "(rune \<Rightarrow> rune) \<Rightarrow> string \<Rightarrow> string" where
  "strings_Map mapping s = concat (map (\<lambda>c. EncodeRune (mapping c)) (runes s))"

definition unicode_ToLower :: "(rune \<Rightarrow> rune) \<Rightarrow> rune \<Rightarrow> rune" where
  "unicode_ToLower tbl r =
     (if r \<le> 0x7F then (if 0x41 \<le> r \<and> r \<le> 0x5A then r + 0x20 else r) else tbl r)"

definition unicode_ToUpper :: "(rune \<Rightarrow> rune) \<Rightarrow> rune \<Rightarrow> rune" where
  "unicode_ToUpper tbl r =
     (if r \<le> 0x7F then (if 0x61 \<le> r \<and> r \<le> 0x7A then r - 0x20 else r) else tbl r)"

definition isASCII :: "string \<Rightarrow> bool" where
  "isASCII s = list_all (\<lambda>c. (of_char c :: nat) < 0x80) s"

text \<open>The ASCII fast paths of \<open>ToLower\<close> and \<open>ToUpper\<close> change one byte at a time:
  \<open>c += 'a' - 'A'\<close> for an upper-case letter, \<open>c -= 'a' - 'A'\<close> for a lower-case one.\<close>

definition lower_byte :: "char \<Rightarrow> char" where
  "lower_byte c = (if CHR ''A'' \<le> c \<and> c \<le> CHR ''Z'' then char_of (of_char c + (0x20::nat)) else c)"

definition upper_byte :: "char \<Rightarrow> char" where
  "upper_byte c = (if CHR ''a'' \<le> c \<and> c \<le> CHR ''z'' then char_of (of_char c - (0x20::nat)) else c)"

definition ToLower :: "(rune \<Rightarrow> rune) \<Rightarrow> string \<Rightarrow> string" where
  "ToLower tbl s = (if isASCII s then map lower_byte s else strings_Map (unicode_ToLower tbl) s)"

definition ToUpper :: "(rune \<Rightarrow> rune) \<Rightarrow> string \<Rightarrow> string" where
  "ToUpper tbl s = (if isASCII s then map upper_byte s else strings_Map (unicode_ToUpper tbl) s)"

definition HasPrefix :: "string \<Rightarrow> string \<Rightarrow> bool" where
  "HasPrefix s pfx \<longleftrightarrow> length pfx \<le> length s \<and> take (length pfx) s = pfx"

section \<open>The static search tree\<close>

record StaticSearchTree =
  tree :: "string \<rightharpoonup> string list"

text \<open>The two loops of \<open>mergeDeduplicate\<close> over the map \<open>seen\<close> and the slice \<open>result\<close>.\<close>

fun add_items :: "string list \<Rightarrow> (string \<Rightarrow> bool) \<times> string list \<Rightarrow> (string \<Rightarrow> bool) \<times> string list" where
  "add_items [] st = st"
| "add_items (item # items) (seen, result) =
     (if \<not> seen item then add_items items (seen(item := True), result @ [item])
      else add_items items (seen, result))"

definition mergeDeduplicate :: "string list \<Rightarrow> string list \<Rightarrow> string list" where
  "mergeDeduplicate slice1 slice2 = snd (add_items slice2 (add_items slice1 (\<lambda>_. False, [])))"

text \<open>The body of the inner loop of \<open>build\<close> for one prefix \<open>pfx\<close>: the scan of all words
  for the matches, and the store into the map.\<close>

definition find_matches :: "(rune \<Rightarrow> rune) \<Rightarrow> string list \<Rightarrow> string \<Rightarrow> string list" where
  "find_matches tbl words pfx = filter (\<lambda>candidate. HasPrefix (ToLower tbl candidate) pfx) words"

definition store :: "(rune \<Rightarrow> rune) \<Rightarrow> string list \<Rightarrow> string \<Rightarrow> (string \<rightharpoonup> string list) \<Rightarrow> (string \<rightharpoonup> string list)" where
  "store tbl words pfx t =
     (let matches = find_matches tbl words pfx in
      case t pfx of
        Some existing \<Rightarrow> t(pfx \<mapsto> mergeDeduplicate existing matches)
      | None \<Rightarrow> t(pfx \<mapsto> matches))"

text \<open>\<open>build\<close> sorts the caller's slice in place and fills the map; the model returns the
  tree together with the contents of the caller's slice afterwards.\<close>

definition build :: "(rune \<Rightarrow> rune) \<Rightarrow> StaticSearchTree \<Rightarrow> string list \<Rightarrow> StaticSearchTree \<times> string list" where
  "build tbl sst words0 =
     (let words = sort words0 in
      (sst\<lparr>tree :=
         fold (\<lambda>word t.
                 fold (\<lambda>i. store tbl words (ToLower tbl (take i word))) [1..<length word + 1] t)
              words (tree sst)\<rparr>,
       words))"

definition NewStaticSearchTree :: "(rune \<Rightarrow> rune) \<Rightarrow> string list \<Rightarrow> StaticSearchTree \<times> string list" where
  "NewStaticSearchTree tbl words = build tbl \<lparr>tree = Map.empty\<rparr> words"

definition Search :: "(rune \<Rightarrow> rune) \<Rightarrow> StaticSearchTree \<Rightarrow> string \<Rightarrow> string list" where
  "Search tbl sst query =
     (let query = ToLower tbl query in
      case tree sst query of Some matches \<Rightarrow> matches | None \<Rightarrow> [])"

datatype panic = SliceBoundsOutOfRange

text \<open>The slice expression \<open>s[:n]\<close> for a slice whose capacity is its length, as the
  slices that \<open>Search\<close> returns are.\<close>

definition slice_to :: "'a list \<Rightarrow> int \<Rightarrow> panic + 'a list" where
  "slice_to s n = (if 0 \<le> n \<and> n \<le> int (length s) then Inr (take (nat n) s) else Inl SliceBoundsOutOfRange)"

definition SearchWithLimit :: "(rune \<Rightarrow> rune) \<Rightarrow> StaticSearchTree \<Rightarrow> string \<Rightarrow> int \<Rightarrow> panic + string list" where
  "SearchWithLimit tbl sst query limit =
     (let matches = Search tbl sst query in
      if int (length matches) \<le> limit then Inr matches else slice_to matches limit)"

definition Size :: "StaticSearchTree \<Rightarrow> int" where
  "Size sst = int (card (dom (tree sst)))"

section \<open>An excerpt of the case tables\<close>

text \<open>The entries of \<open>unicode.CaseRanges\<close> for the Latin-1 letters and for U+0130 and
  U+0131, used to run the model on concrete words. Every other rune above U+007F is left
  unchanged by this excerpt, as the full table leaves every rune that is not a letter
  with a case (U+FFFD among them).\<close>

definition lower_excerpt :: "rune \<Rightarrow> rune" where
  "lower_excerpt r =
     (if 0xC0 \<le> r \<and> r \<le> 0xDE \<and> r \<noteq> 0xD7 then r + 0x20
      else if r = 0x130 then 0x69
      else r)"

definition upper_excerpt :: "rune \<Rightarrow> rune" where
  "upper_excerpt r =
     (if 0xE0 \<le> r \<and> r \<le> 0xFE \<and> r \<noteq> 0xF7 then r - 0x20
      else if r = 0xFF then 0x178
      else if r = 0xB5 then 0x39C
      else if r = 0x131 then 0x49
      else r)"

section \<open>Auxiliary notions for the proofs\<close>

text \<open>The length of a UTF-8 sequence, read off its leading byte.\<close>

definition lead_len :: "nat \<Rightarrow> nat" where
  "lead_len b = (if b < 0x80 then 1 else if b < 0xE0 then 2 else if b < 0xF0 then 3 else 4)"

text \<open>What the loops of \<open>mergeDeduplicate\<close> leave in \<open>result\<close> when they start from a
  \<open>result\<close> equal to \<open>res\<close> and a \<open>seen\<close> that holds exactly the items of \<open>res\<close>.\<close>

definition dedup_onto :: "string list \<Rightarrow> string list \<Rightarrow> string list" where
  "dedup_onto res xs = snd (add_items xs (\<lambda>x. x \<in> set res, res))"

text \<open>The keys that the inner loop of \<open>build\<close> visits for one word, and for the whole
  sorted slice, in the order of the visits.\<close>

definition keys_of :: "(rune \<Rightarrow> rune) \<Rightarrow> string \<Rightarrow> string list" where
  "keys_of tbl word = map (\<lambda>i. ToLower tbl (take i word)) [1..<length word + 1]"

definition all_keys :: "(rune \<Rightarrow> rune) \<Rightarrow> string list \<Rightarrow> string list" where
  "all_keys tbl words = concat (map (keys_of tbl) (sort words))"

section \<open>UTF-8: decoding a slice, and the encoding as a prefix code\<close>

lemma DecodeRune_width_pos: "s \<noteq> [] \<Longrightarrow> 0 < snd (DecodeRune s)"
  by (cases s) (auto simp: DecodeRune_def Let_def split: option.splits prod.splits)

lemma accept_size: "accept b = Some (sz, lo, hi) \<Longrightarrow> sz = 2 \<or> sz = 3 \<or> sz = 4"
  by (auto simp: accept_def split: if_splits)

lemma DecodeRune_None:
  "s \<noteq> [] \<Longrightarrow> accept (of_char (s ! 0)) = None \<Longrightarrow>
   DecodeRune s = (if (of_char (s ! 0) :: nat) < 0x80 then (of_char (s ! 0), 1) else (RuneError, 1))"
  by (simp add: DecodeRune_def Let_def)

lemma DecodeRune_width_cases:
  assumes "s \<noteq> []"
  shows "snd (DecodeRune s) = 1 \<or>
    (\<exists>sz lo hi. accept (of_char (s ! 0)) = Some (sz, lo, hi) \<and> sz \<le> length s \<and> snd (DecodeRune s) = sz)"
proof (cases "accept (of_char (s ! 0))")
  case None
  with assms show ?thesis by (simp add: DecodeRune_None)
next
  case (Some a)
  obtain sz lo hi where a: "a = (sz, lo, hi)" by (cases a)
  from Some a have sz: "sz = 2 \<or> sz = 3 \<or> sz = 4" by (auto dest: accept_size)
  from sz show ?thesis using assms Some a
    by (elim disjE) (simp_all add: DecodeRune_def Let_def not_less)
qed

lemma DecodeRune_width_le: "snd (DecodeRune s) \<le> length s"
proof (cases "s = []")
  case True
  then show ?thesis by (simp add: DecodeRune_def)
next
  case False
  then have "1 \<le> length s" by (cases s) simp_all
  with DecodeRune_width_cases[OF False] show ?thesis by auto
qed

lemma DecodeRune_take:
  assumes "snd (DecodeRune s) \<le> k" and "s \<noteq> []"
  shows "DecodeRune (take k s) = DecodeRune s"
proof -
  from assms have k: "1 \<le> k" using DecodeRune_width_pos[of s] by simp
  from assms(2) have l: "1 \<le> length s" by (cases s) simp_all
  show ?thesis
  proof (cases "accept (of_char (s ! 0))")
    case None
    with k l assms(2) show ?thesis by (simp add: DecodeRune_def Let_def)
  next
    case (Some a)
    obtain sz lo hi where a: "a = (sz, lo, hi)" by (cases a)
    from Some a have sz: "sz = 2 \<or> sz = 3 \<or> sz = 4" by (auto dest: accept_size)
    have hi: "(of_char (s ! 0) :: nat) \<ge> 0x80" using Some by (auto simp: accept_def split: if_splits)
    from sz show ?thesis
    proof (elim disjE)
      assume "sz = 2"
      then show ?thesis using assms k l Some a hi
        by (auto simp add: DecodeRune_def Let_def not_less min_def split: if_splits)
    next
      assume "sz = 3"
      then show ?thesis using assms k l Some a hi
        by (auto simp add: DecodeRune_def Let_def not_less min_def split: if_splits)
    next
      assume "sz = 4"
      then show ?thesis using assms k l Some a hi
        by (auto simp add: DecodeRune_def Let_def not_less min_def split: if_splits)
    qed
  qed
qed

lemma EncodeRune_nonempty: "EncodeRune r \<noteq> []"
  by (simp add: EncodeRune_def)

lemma EncodeRune_length: "length (EncodeRune r) = lead_len (of_char (hd (EncodeRune r)))"
proof -
  consider "r \<le> 0x7F" | "0x7F < r" "r \<le> 0x7FF"
    | "0x7FF < r" "0x10FFFF < r \<or> (0xD800 \<le> r \<and> r \<le> 0xDFFF)"
    | "0x7FF < r" "r \<le> 0xFFFF" "\<not> (0x10FFFF < r \<or> (0xD800 \<le> r \<and> r \<le> 0xDFFF))"
    | "0xFFFF < r" "r \<le> 0x10FFFF"
    by linarith
  then show ?thesis
  proof cases
    case 1
    then show ?thesis by (simp add: EncodeRune_def lead_len_def)
  next
    case 2
    then have "r div 64 < 32" "2 \<le> r div 64" by arith+
    with 2 show ?thesis by (simp add: EncodeRune_def lead_len_def)
  next
    case 3
    then show ?thesis by (auto simp add: EncodeRune_def lead_len_def)
  next
    case 4
    then have "r div 4096 < 16" by arith
    with 4 show ?thesis by (simp add: EncodeRune_def lead_len_def)
  next
    case 5
    then have "r div 262144 < 5" by arith
    with 5 show ?thesis by (simp add: EncodeRune_def lead_len_def)
  qed
qed

lemma EncodeRune_prefix_free:
  assumes "EncodeRune a @ u = EncodeRune b @ v"
  shows "EncodeRune a = EncodeRune b"
proof -
  have "hd (EncodeRune a) = hd (EncodeRune b)"
    using assms EncodeRune_nonempty[of a] EncodeRune_nonempty[of b]
    by (metis hd_append2)
  then have "length (EncodeRune a) = length (EncodeRune b)"
    by (simp add: EncodeRune_length)
  with assms show ?thesis by simp
qed

section \<open>Runes of a string and of its slices\<close>

lemma runes_Nil [simp]: "runes [] = []"
  by (simp add: runes.simps)

lemma rune_ends_Nil [simp]: "rune_ends [] = []"
  by (simp add: rune_ends.simps)

lemma runes_Nil_iff [simp]: "runes s = [] \<longleftrightarrow> s = []"
  by (subst runes.simps) simp

lemma runes_take_width:
  assumes "s \<noteq> []" and "snd (DecodeRune s) \<le> k"
  shows "runes (take k s) = fst (DecodeRune s) # runes (take (k - snd (DecodeRune s)) (drop (snd (DecodeRune s)) s))"
proof -
  from assms have "take k s \<noteq> []" using DecodeRune_width_pos[of s] by auto
  then have "runes (take k s) = fst (DecodeRune (take k s)) # runes (drop (snd (DecodeRune (take k s))) (take k s))"
    by (subst runes.simps) simp
  also have "DecodeRune (take k s) = DecodeRune s"
    using assms by (simp add: DecodeRune_take)
  finally show ?thesis by (simp add: drop_take)
qed

lemma rune_ends_bounds: "k \<in> set (rune_ends s) \<Longrightarrow> 1 \<le> k \<and> k \<le> length s"
proof (induction s arbitrary: k rule: rune_ends.induct)
  case (1 s)
  show ?case
  proof (cases "s = []")
    case True
    with "1.prems" show ?thesis by simp
  next
    case False
    let ?n = "snd (DecodeRune s)"
    have n: "0 < ?n" "?n \<le> length s"
      using False by (simp_all add: DecodeRune_width_pos DecodeRune_width_le)
    from "1.prems" False have "k = ?n \<or> (\<exists>j\<in>set (rune_ends (drop ?n s)). k = ?n + j)"
      by (subst (asm) rune_ends.simps) auto
    then show ?thesis
    proof
      assume "k = ?n"
      with n show ?thesis by simp
    next
      assume "\<exists>j\<in>set (rune_ends (drop ?n s)). k = ?n + j"
      then obtain j where j: "j \<in> set (rune_ends (drop ?n s))" "k = ?n + j" by blast
      from "1.IH"[OF False j(1)] have "j \<le> length s - ?n" by simp
      with j n show ?thesis by simp
    qed
  qed
qed

lemma runes_split: "k \<in> set (rune_ends s) \<Longrightarrow> runes (take k s) @ runes (drop k s) = runes s"
proof (induction s arbitrary: k rule: rune_ends.induct)
  case (1 s)
  show ?case
  proof (cases "s = []")
    case True
    with "1.prems" show ?thesis by simp
  next
    case False
    let ?n = "snd (DecodeRune s)"
    have rs: "runes s = fst (DecodeRune s) # runes (drop ?n s)"
      using False by (subst runes.simps) simp
    from "1.prems" False have "k = ?n \<or> (\<exists>j\<in>set (rune_ends (drop ?n s)). k = ?n + j)"
      by (subst (asm) rune_ends.simps) auto
    then show ?thesis
    proof
      assume k: "k = ?n"
      with False have "runes (take k s) = [fst (DecodeRune s)]"
        by (simp add: runes_take_width)
      with k rs show ?thesis by simp
    next
      assume "\<exists>j\<in>set (rune_ends (drop ?n s)). k = ?n + j"
      then obtain j where j: "j \<in> set (rune_ends (drop ?n s))" "k = ?n + j" by blast
      have "runes (take k s) = fst (DecodeRune s) # runes (take j (drop ?n s))"
        using False j(2) by (simp add: runes_take_width)
      moreover have "drop k s = drop j (drop ?n s)"
        using j(2) by (simp add: add.commute)
      ultimately show ?thesis using "1.IH"[OF False j(1)] rs by simp
    qed
  qed
qed

lemma runes_take_end:
  "1 \<le> m \<Longrightarrow> m \<le> length (runes s) \<Longrightarrow> \<exists>k\<in>set (rune_ends s). runes (take k s) = take m (runes s)"
proof (induction s arbitrary: m rule: rune_ends.induct)
  case (1 s)
  from "1.prems" have False: "s \<noteq> []" by auto
  let ?n = "snd (DecodeRune s)"
  have rs: "runes s = fst (DecodeRune s) # runes (drop ?n s)"
    using False by (subst runes.simps) simp
  have re: "rune_ends s = ?n # map (\<lambda>k. ?n + k) (rune_ends (drop ?n s))"
    using False by (subst rune_ends.simps) simp
  show ?case
  proof (cases "m = 1")
    case True
    have "runes (take ?n s) = [fst (DecodeRune s)]"
      using False by (simp add: runes_take_width)
    with True rs re show ?thesis by auto
  next
    case False
    with "1.prems" obtain m' where m': "m = Suc m'" "1 \<le> m'" "m' \<le> length (runes (drop ?n s))"
      using rs by (cases m) auto
    from "1.IH"[OF \<open>s \<noteq> []\<close> m'(2,3)] obtain j where
      j: "j \<in> set (rune_ends (drop ?n s))" "runes (take j (drop ?n s)) = take m' (runes (drop ?n s))"
      by blast
    have "runes (take (?n + j) s) = fst (DecodeRune s) # runes (take j (drop ?n s))"
      using \<open>s \<noteq> []\<close> by (simp add: runes_take_width)
    with j m' rs have "runes (take (?n + j) s) = take m (runes s)" by simp
    moreover have "?n + j \<in> set (rune_ends s)" using j(1) re by simp
    ultimately show ?thesis by blast
  qed
qed

section \<open>Lower-casing\<close>

lemma isASCII_Cons [simp]: "isASCII (c # cs) \<longleftrightarrow> (of_char c :: nat) < 0x80 \<and> isASCII cs"
  by (simp add: isASCII_def)

lemma isASCII_Nil [simp]: "isASCII []"
  by (simp add: isASCII_def)

lemma isASCII_take: "isASCII s \<Longrightarrow> isASCII (take k s)"
  by (auto simp: isASCII_def list_all_iff dest: in_set_takeD)

lemma DecodeRune_ascii: "(of_char c :: nat) < 0x80 \<Longrightarrow> DecodeRune (c # cs) = (of_char c, 1)"
  by (simp add: DecodeRune_def)

lemma runes_ascii: "isASCII s \<Longrightarrow> runes s = map of_char s"
proof (induction s)
  case Nil
  show ?case by simp
next
  case (Cons c cs)
  then show ?case by (subst runes.simps) (simp add: DecodeRune_ascii)
qed

lemma rune_ends_ascii: "isASCII s \<Longrightarrow> rune_ends s = [1..<Suc (length s)]"
proof (induction s)
  case Nil
  show ?case by simp
next
  case (Cons c cs)
  then have "rune_ends (c # cs) = 1 # map Suc [1..<Suc (length cs)]"
    by (subst rune_ends.simps) (simp add: DecodeRune_ascii)
  also have "\<dots> = [1..<Suc (length (c # cs))]"
    by (simp add: map_Suc_upt upt_conv_Cons del: upt_Suc)
  finally show ?case .
qed

lemma lower_ascii_char:
  assumes "(of_char c :: nat) < 0x80"
  shows "EncodeRune (unicode_ToLower tbl (of_char c)) = [lower_byte c]"
  using assms by (simp add: EncodeRune_def unicode_ToLower_def lower_byte_def less_eq_char_def)

lemma ToLower_runes: "ToLower tbl s = concat (map (\<lambda>c. EncodeRune (unicode_ToLower tbl c)) (runes s))"
proof (cases "isASCII s")
  case False
  then show ?thesis by (simp add: ToLower_def strings_Map_def)
next
  case True
  then have "map lower_byte s
      = concat (map (\<lambda>c. EncodeRune (unicode_ToLower tbl c)) (map of_char s))"
    by (induction s) (simp_all add: lower_ascii_char)
  with True show ?thesis by (simp add: ToLower_def runes_ascii)
qed

lemma ToLower_Nil_iff [simp]: "ToLower tbl s = [] \<longleftrightarrow> s = []"
  by (auto simp: ToLower_runes EncodeRune_nonempty)

lemma ToLower_split:
  "k \<in> set (rune_ends s) \<Longrightarrow> ToLower tbl s = ToLower tbl (take k s) @ ToLower tbl (drop k s)"
  using runes_split[of k s] by (simp add: ToLower_runes flip: map_append concat_append)

lemma HasPrefix_prefix: "HasPrefix s p \<longleftrightarrow> prefix p s"
  by (auto simp: HasPrefix_def prefix_def take_is_prefix dest!: sym[of _ p]) (metis append_eq_conv_conj length_append le_add1)

lemma HasPrefix_ToLower_take:
  "k \<in> set (rune_ends s) \<Longrightarrow> HasPrefix (ToLower tbl s) (ToLower tbl (take k s))"
  using ToLower_split[of k s tbl] by (simp add: HasPrefix_prefix)

lemma codewords_prefix:
  "prefix (concat (map (\<lambda>c. EncodeRune (f c)) rs)) (concat (map (\<lambda>c. EncodeRune (f c)) rs')) \<Longrightarrow>
   prefix (map (\<lambda>c. EncodeRune (f c)) rs) (map (\<lambda>c. EncodeRune (f c)) rs')"
proof (induction rs arbitrary: rs')
  case Nil
  show ?case by simp
next
  case (Cons r rs)
  show ?case
  proof (cases rs')
    case Nil
    with Cons.prems show ?thesis by (simp add: EncodeRune_nonempty)
  next
    case (Cons r' rs1)
    from Cons.prems Cons obtain z where
      z: "EncodeRune (f r') @ concat (map (\<lambda>c. EncodeRune (f c)) rs1)
          = EncodeRune (f r) @ (concat (map (\<lambda>c. EncodeRune (f c)) rs) @ z)"
      by (auto simp: prefix_def)
    then have e: "EncodeRune (f r') = EncodeRune (f r)"
      by (rule EncodeRune_prefix_free)
    with z have "prefix (concat (map (\<lambda>c. EncodeRune (f c)) rs)) (concat (map (\<lambda>c. EncodeRune (f c)) rs1))"
      by (simp add: prefix_def)
    then have "prefix (map (\<lambda>c. EncodeRune (f c)) rs) (map (\<lambda>c. EncodeRune (f c)) rs1)"
      by (rule Cons.IH)
    with e Cons show ?thesis by simp
  qed
qed

lemma ToLower_prefix_generated:
  assumes "HasPrefix (ToLower tbl c) (ToLower tbl x)" and "x \<noteq> []"
  shows "\<exists>k\<in>set (rune_ends c). ToLower tbl (take k c) = ToLower tbl x"
proof -
  let ?e = "\<lambda>c. EncodeRune (unicode_ToLower tbl c)"
  from assms(1) have "prefix (map ?e (runes x)) (map ?e (runes c))"
    by (simp add: HasPrefix_prefix ToLower_runes codewords_prefix)
  then obtain zs where zs: "map ?e (runes c) = map ?e (runes x) @ zs"
    by (auto simp: prefix_def)
  have l: "length (runes x) \<le> length (runes c)"
    using arg_cong[OF zs, of length] by simp
  have t: "map ?e (runes x) = take (length (runes x)) (map ?e (runes c))"
    by (simp add: zs)
  from assms(2) have "1 \<le> length (runes x)"
    by (cases "runes x") simp_all
  from runes_take_end[OF this l] obtain k where
    k: "k \<in> set (rune_ends c)" "runes (take k c) = take (length (runes x)) (runes c)"
    by blast
  have "ToLower tbl (take k c) = concat (take (length (runes x)) (map ?e (runes c)))"
    by (simp add: ToLower_runes k(2) take_map)
  also have "\<dots> = ToLower tbl x"
    by (simp add: ToLower_runes flip: t)
  finally show ?thesis using k(1) by blast
qed

lemma ToLower_ascii: "isASCII s \<Longrightarrow> ToLower tbl s = map lower_byte s"
  by (simp add: ToLower_def)

lemma lower_byte_ascii: "(of_char c :: nat) < 0x80 \<Longrightarrow> (of_char (lower_byte c) :: nat) < 0x80"
  by (auto simp: lower_byte_def less_eq_char_def)

lemma lower_byte_idem: "(of_char c :: nat) < 0x80 \<Longrightarrow> lower_byte (lower_byte c) = lower_byte c"
  by (auto simp: lower_byte_def less_eq_char_def)

lemma isASCII_map_lower: "isASCII s \<Longrightarrow> isASCII (map lower_byte s)"
  by (induction s) (simp_all add: lower_byte_ascii)

lemma isASCII_ToLower: "isASCII s \<Longrightarrow> isASCII (ToLower tbl s)"
  by (simp add: ToLower_ascii isASCII_map_lower)

lemma ToLower_idem_ascii: "isASCII s \<Longrightarrow> ToLower tbl (ToLower tbl s) = ToLower tbl s"
proof -
  assume a: "isASCII s"
  have "ToLower tbl (ToLower tbl s) = map lower_byte (map lower_byte s)"
    using a by (simp add: ToLower_ascii isASCII_map_lower)
  also have "\<dots> = map lower_byte s"
    using a by (induction s) (simp_all add: lower_byte_idem)
  also have "\<dots> = ToLower tbl s"
    using a by (simp add: ToLower_ascii)
  finally show ?thesis .
qed

section \<open>Merging without duplicates\<close>

lemma add_items_dedup_onto:
  "add_items xs (\<lambda>x. x \<in> set res, res) = (\<lambda>x. x \<in> set (dedup_onto res xs), dedup_onto res xs)"
proof (induction xs arbitrary: res)
  case Nil
  show ?case by (simp add: dedup_onto_def)
next
  case (Cons x xs)
  have upd: "(\<lambda>y. y \<in> set res)(x := True) = (\<lambda>y. y \<in> set (res @ [x]))"
    by (rule ext) simp
  show ?case
  proof (cases "x \<in> set res")
    case True
    with Cons.IH[of res] show ?thesis by (simp add: dedup_onto_def)
  next
    case False
    with Cons.IH[of "res @ [x]"] show ?thesis by (simp add: dedup_onto_def upd)
  qed
qed

lemma dedup_onto_Nil [simp]: "dedup_onto res [] = res"
  by (simp add: dedup_onto_def)

lemma dedup_onto_Cons [simp]:
  "dedup_onto res (x # xs) = (if x \<in> set res then dedup_onto res xs else dedup_onto (res @ [x]) xs)"
proof -
  have upd: "(\<lambda>y. y \<in> set res)(x := True) = (\<lambda>y. y \<in> set (res @ [x]))"
    by (rule ext) simp
  show ?thesis by (simp add: dedup_onto_def upd)
qed

lemma mergeDeduplicate_dedup_onto:
  "mergeDeduplicate slice1 slice2 = dedup_onto (dedup_onto [] slice1) slice2"
proof -
  have "add_items slice1 (\<lambda>_. False, []) = (\<lambda>x. x \<in> set (dedup_onto [] slice1), dedup_onto [] slice1)"
    using add_items_dedup_onto[of slice1 "[]"] by simp
  then show ?thesis by (simp add: mergeDeduplicate_def dedup_onto_def)
qed

lemma set_dedup_onto [simp]: "set (dedup_onto res xs) = set res \<union> set xs"
  by (induction xs arbitrary: res) auto

lemma distinct_dedup_onto: "distinct res \<Longrightarrow> distinct (dedup_onto res xs)"
  by (induction xs arbitrary: res) auto

lemma sorted_dedup_onto: "sorted (res @ xs) \<Longrightarrow> sorted (dedup_onto res xs)"
proof (induction xs arbitrary: res)
  case Nil
  then show ?case by simp
next
  case (Cons x xs)
  from Cons.prems have "sorted (res @ xs)" "sorted ((res @ [x]) @ xs)"
    by (auto simp: sorted_append)
  with Cons.IH show ?case by simp
qed

lemma dedup_onto_subset: "set xs \<subseteq> set res \<Longrightarrow> dedup_onto res xs = res"
  by (induction xs arbitrary: res) auto

lemma dedup_onto_distinct: "distinct xs \<Longrightarrow> set xs \<inter> set res = {} \<Longrightarrow> dedup_onto res xs = res @ xs"
  by (induction xs arbitrary: res) auto

lemma mergeDeduplicate_same: "mergeDeduplicate xs xs = dedup_onto [] xs"
  by (simp add: mergeDeduplicate_dedup_onto dedup_onto_subset)

lemma mergeDeduplicate_again: "mergeDeduplicate (dedup_onto [] xs) xs = dedup_onto [] xs"
proof -
  have "dedup_onto [] (dedup_onto [] xs) = dedup_onto [] xs"
    using dedup_onto_distinct[of "dedup_onto [] xs" "[]"] by (simp add: distinct_dedup_onto)
  then show ?thesis by (simp add: mergeDeduplicate_dedup_onto dedup_onto_subset)
qed

section \<open>The entries that build leaves in the map\<close>

lemma store_other: "p \<noteq> k \<Longrightarrow> store tbl ws k t p = t p"
  by (simp add: store_def Let_def split: option.splits)

lemma store_same:
  "store tbl ws k t k =
     Some (case t k of None \<Rightarrow> find_matches tbl ws k
           | Some existing \<Rightarrow> mergeDeduplicate existing (find_matches tbl ws k))"
  by (simp add: store_def Let_def split: option.splits)

lemma fold_store_entry:
  "fold (store tbl ws) ks Map.empty p =
     (if count_list ks p = 0 then None
      else if count_list ks p = 1 then Some (find_matches tbl ws p)
      else Some (dedup_onto [] (find_matches tbl ws p)))"
proof (induction ks rule: rev_induct)
  case Nil
  show ?case by simp
next
  case (snoc k ks)
  show ?case
  proof (cases "p = k")
    case False
    with snoc show ?thesis by (simp add: store_other)
  next
    case True
    with snoc show ?thesis
      by (simp add: store_same mergeDeduplicate_same mergeDeduplicate_again)
  qed
qed

lemma fold_concat_map: "fold f (concat (map g xs)) s = fold (\<lambda>x. fold f (g x)) xs s"
  by (induction xs arbitrary: s) simp_all

lemma build_tree:
  "tree (fst (build tbl sst words)) =
     fold (store tbl (sort words)) (concat (map (keys_of tbl) (sort words))) (tree sst)"
proof -
  have "\<And>word. fold (\<lambda>i. store tbl (sort words) (ToLower tbl (take i word))) [1..<length word + 1]
      = fold (store tbl (sort words)) (keys_of tbl word)"
    by (simp add: keys_of_def fold_map comp_def)
  then show ?thesis
    by (simp add: build_def Let_def fold_concat_map)
qed

lemma build_words: "snd (build tbl sst words) = sort words"
  by (simp add: build_def Let_def)

lemma keys_of_iff:
  "p \<in> set (keys_of tbl w) \<longleftrightarrow> (\<exists>i. 1 \<le> i \<and> i \<le> length w \<and> p = ToLower tbl (take i w))"
  by (auto simp: keys_of_def)

lemma keys_of_nonempty: "p \<in> set (keys_of tbl w) \<Longrightarrow> p \<noteq> []"
  by (auto simp: keys_of_iff)

lemma keys_of_rune_end: "k \<in> set (rune_ends w) \<Longrightarrow> ToLower tbl (take k w) \<in> set (keys_of tbl w)"
  using rune_ends_bounds[of k w] by (auto simp: keys_of_iff)

lemma match_generates_key:
  assumes "p \<in> set (keys_of tbl v)" and "HasPrefix (ToLower tbl w) p"
  shows "p \<in> set (keys_of tbl w)"
proof -
  from assms(1) obtain i where i: "1 \<le> i" "i \<le> length v" "p = ToLower tbl (take i v)"
    by (auto simp: keys_of_iff)
  then have "take i v \<noteq> []" by auto
  with assms(2) i(3) obtain k where "k \<in> set (rune_ends w)" "ToLower tbl (take k w) = p"
    using ToLower_prefix_generated[of tbl w "take i v"] by auto
  then show ?thesis using keys_of_rune_end[of k w tbl] by simp
qed

lemma count_list_concat_map:
  "count_list ws w * count_list (g w) p \<le> count_list (concat (map g ws)) p"
  by (induction ws) (simp_all add: count_list_append)

lemma count_list_pos: "x \<in> set xs \<Longrightarrow> 1 \<le> count_list xs x"
  by (induction xs) auto

lemma not_distinct_count: "\<not> distinct xs \<Longrightarrow> \<exists>w. 2 \<le> count_list xs w"
proof (induction xs)
  case Nil
  then show ?case by simp
next
  case (Cons x xs)
  show ?case
  proof (cases "x \<in> set xs")
    case True
    then have "1 \<le> count_list xs x" by (rule count_list_pos)
    then have "2 \<le> count_list (x # xs) x" by simp
    then show ?thesis by blast
  next
    case False
    with Cons.prems have "\<not> distinct xs" by simp
    with Cons.IH obtain w where "2 \<le> count_list xs w" by blast
    then have "2 \<le> count_list (x # xs) w" by simp
    then show ?thesis by blast
  qed
qed

lemma count_list_filter: "count_list (filter P ws) w = (if P w then count_list ws w else 0)"
  by (induction ws) auto

lemma not_distinct_filter:
  assumes "\<not> distinct (filter P ws)"
  shows "\<exists>w. P w \<and> 2 \<le> count_list ws w"
proof -
  from assms obtain w where w: "2 \<le> count_list (filter P ws) w"
    using not_distinct_count by blast
  then have "P w" by (cases "P w") (simp_all add: count_list_filter)
  with w show ?thesis by (auto simp: count_list_filter)
qed

lemma key_visited_twice:
  assumes "p \<in> set (concat (map (keys_of tbl) ws))" and "\<not> distinct (find_matches tbl ws p)"
  shows "2 \<le> count_list (concat (map (keys_of tbl) ws)) p"
proof -
  from assms(2) obtain w where w: "HasPrefix (ToLower tbl w) p" "2 \<le> count_list ws w"
    using not_distinct_filter[of "\<lambda>c. HasPrefix (ToLower tbl c) p" ws] by (auto simp: find_matches_def)
  from assms(1) obtain v where "p \<in> set (keys_of tbl v)" by auto
  then have "p \<in> set (keys_of tbl w)" using w(1) by (rule match_generates_key)
  then have "1 \<le> count_list (keys_of tbl w) p" by (rule count_list_pos)
  with w(2) have "2 * 1 \<le> count_list ws w * count_list (keys_of tbl w) p"
    by (rule mult_le_mono)
  also have "\<dots> \<le> count_list (concat (map (keys_of tbl) ws)) p"
    by (rule count_list_concat_map)
  finally show ?thesis by simp
qed

lemma fold_store_final:
  "fold (store tbl ws) (concat (map (keys_of tbl) ws)) Map.empty p =
     (if p \<in> set (concat (map (keys_of tbl) ws)) then Some (dedup_onto [] (find_matches tbl ws p))
      else None)"
proof (cases "p \<in> set (concat (map (keys_of tbl) ws))")
  case False
  then have "count_list (concat (map (keys_of tbl) ws)) p = 0"
    by (simp only: count_list_0_iff not_False_eq_True)
  with False show ?thesis by (simp only: fold_store_entry) simp
next
  case True
  then have pos: "count_list (concat (map (keys_of tbl) ws)) p \<noteq> 0"
    by (simp only: count_list_0_iff) simp
  show ?thesis
  proof (cases "count_list (concat (map (keys_of tbl) ws)) p = 1")
    case False
    with True pos show ?thesis by (simp only: fold_store_entry) simp
  next
    case one: True
    have "distinct (find_matches tbl ws p)"
    proof (rule ccontr)
      assume "\<not> distinct (find_matches tbl ws p)"
      with True have "2 \<le> count_list (concat (map (keys_of tbl) ws)) p"
        by (rule key_visited_twice)
      with one show False by simp
    qed
    then have "dedup_onto [] (find_matches tbl ws p) = find_matches tbl ws p"
      using dedup_onto_distinct[of "find_matches tbl ws p" "[]"] by simp
    with True one show ?thesis by (simp only: fold_store_entry) simp
  qed
qed

lemma NewStaticSearchTree_tree:
  "tree (fst (NewStaticSearchTree tbl words)) p =
     (if p \<in> set (all_keys tbl words)
      then Some (dedup_onto [] (find_matches tbl (sort words) p)) else None)"
  by (simp only: NewStaticSearchTree_def build_tree all_keys_def fold_store_final
      StaticSearchTree.simps)

lemma all_keys_iff:
  "p \<in> set (all_keys tbl words) \<longleftrightarrow>
     (\<exists>w\<in>set words. \<exists>i. 1 \<le> i \<and> i \<le> length w \<and> p = ToLower tbl (take i w))"
  by (auto simp: all_keys_def keys_of_iff)

lemma sorted_find_matches: "sorted (find_matches tbl (sort words) p)"
  by (simp add: find_matches_def sorted_wrt_filter)

lemma entry_sorted: "sorted (dedup_onto [] (find_matches tbl (sort words) p))"
  by (rule sorted_dedup_onto) (simp add: sorted_find_matches)

lemma entry_distinct: "distinct (dedup_onto [] (find_matches tbl (sort words) p))"
  by (rule distinct_dedup_onto) simp

lemma entry_set:
  "set (dedup_onto [] (find_matches tbl (sort words) p)) = {w \<in> set words. HasPrefix (ToLower tbl w) p}"
  by (auto simp: find_matches_def)

lemma dom_NewStaticSearchTree:
  "dom (tree (fst (NewStaticSearchTree tbl words))) = set (all_keys tbl words)"
  by (auto simp: NewStaticSearchTree_tree dom_def)

lemma Size_NewStaticSearchTree:
  "Size (fst (NewStaticSearchTree tbl words)) = int (length (remdups (all_keys tbl words)))"
  by (simp add: Size_def dom_NewStaticSearchTree card_set)

lemma Search_NewStaticSearchTree:
  "Search tbl (fst (NewStaticSearchTree tbl words)) q =
     (if ToLower tbl q \<in> set (all_keys tbl words)
      then dedup_onto [] (find_matches tbl (sort words) (ToLower tbl q)) else [])"
  by (simp add: Search_def Let_def NewStaticSearchTree_tree)

section \<open>Evaluating the model on concrete words\<close>

lemmas go_eval = ToLower_def ToUpper_def lower_byte_def upper_byte_def strings_Map_def runes.simps rune_ends.simps DecodeRune_def
  accept_def EncodeRune_def unicode_ToLower_def unicode_ToUpper_def lower_excerpt_def
  upper_excerpt_def RuneError_def isASCII_def char_of_def bit_Suc_0_iff

lemmas index_eval = Search_NewStaticSearchTree Size_NewStaticSearchTree NewStaticSearchTree_tree
  all_keys_def keys_of_def find_matches_def HasPrefix_def

lemma distinct_count_list_1: "distinct e \<Longrightarrow> w \<in> set e \<Longrightarrow> count_list e w = 1"
  by (induction e) (auto simp: count_list_0_iff)

lemma entry_of_rune_end:
  assumes "w \<in> set words" and "k \<in> set (rune_ends w)"
  shows "\<exists>e. tree (fst (NewStaticSearchTree tbl words)) (ToLower tbl (take k w)) = Some e \<and> w \<in> set e"
proof -
  from assms(2) have "1 \<le> k \<and> k \<le> length w" by (rule rune_ends_bounds)
  with assms(1) have key: "ToLower tbl (take k w) \<in> set (all_keys tbl words)"
    by (auto simp: all_keys_iff)
  from assms(2) have "HasPrefix (ToLower tbl w) (ToLower tbl (take k w))"
    by (rule HasPrefix_ToLower_take)
  with assms(1) have "w \<in> set (dedup_onto [] (find_matches tbl (sort words) (ToLower tbl (take k w))))"
    by (simp only: entry_set) simp
  with key show ?thesis by (simp add: NewStaticSearchTree_tree)
qed

lemma search_complete_ascii:
  assumes "w \<in> set words" and "isASCII w" and "1 \<le> k" and "k \<le> length w"
  shows "w \<in> set (Search tbl (fst (NewStaticSearchTree tbl words)) (ToLower tbl (take k w)))"
proof -
  from assms(2-4) have "k \<in> set (rune_ends w)"
    by (auto simp: rune_ends_ascii)
  moreover from assms(2) have "ToLower tbl (ToLower tbl (take k w)) = ToLower tbl (take k w)"
    by (simp add: ToLower_idem_ascii isASCII_take)
  ultimately show ?thesis
    using entry_of_rune_end[OF assms(1), of k tbl] by (auto simp: Search_def Let_def)
qed

lemma e_acute_lower: "ToLower lower_excerpt [CHR 0xC3, CHR 0xA9] = [CHR 0xC3, CHR 0xA9]"
  by (simp add: go_eval)

lemma broken_C3_lower: "ToLower lower_excerpt [CHR 0xC3] = [CHR 0xEF, CHR 0xBF, CHR 0xBD]"
  by (simp add: go_eval)

lemma replacement_lower:
  "ToLower lower_excerpt [CHR 0xEF, CHR 0xBF, CHR 0xBD] = [CHR 0xEF, CHR 0xBF, CHR 0xBD]"
  by (simp add: go_eval)

lemma E_acute_a_lower:
  "ToLower lower_excerpt [CHR 0xC3, CHR 0x89, CHR ''a''] = [CHR 0xC3, CHR 0xA9, CHR ''a'']"
  "ToLower lower_excerpt [CHR 0xC3, CHR 0x89] = [CHR 0xC3, CHR 0xA9]"
  by (simp_all add: go_eval)

text \<open>
  \<^bold>\<open>C1\<close>. For every word \<open>w\<close> of the input and every length \<open>k\<close> at which the
  slice \<open>w[:k]\<close> ends with a whole rune of \<open>w\<close> (then \<open>1 \<le> k \<le> len(w)\<close>; for an ASCII word
  these are all \<open>k\<close> from 1 to \<open>len(w)\<close>), if lower-casing the key \<open>lower(w[:k])\<close> again
  leaves it unchanged (as it does for ASCII), then \<open>Search(lower(w[:k]))\<close> on the index
  built from the input contains \<open>w\<close>.
\<close>

theorem search_complete_at_rune_ends:
  assumes "w \<in> set words" and "k \<in> set (rune_ends w)"
    and "ToLower tbl (ToLower tbl (take k w)) = ToLower tbl (take k w)"
  shows "w \<in> set (Search tbl (fst (NewStaticSearchTree tbl words)) (ToLower tbl (take k w)))"
  using entry_of_rune_end[OF assms(1,2), of tbl] assms(3) by (auto simp: Search_def Let_def)

text \<open>The word of bytes C3 89 61 (a capital E with acute accent, then \<open>a\<close>) and \<open>k = 2\<close>: the key is
  the small e with acute accent, bytes C3 A9.\<close>

theorem search_complete_at_rune_ends_witness:
  "[CHR 0xC3, CHR 0x89, CHR ''a''] \<in> set [''apple'', [CHR 0xC3, CHR 0x89, CHR ''a'']] \<and>
   2 \<in> set (rune_ends [CHR 0xC3, CHR 0x89, CHR ''a'']) \<and>
   ToLower lower_excerpt (take 2 [CHR 0xC3, CHR 0x89, CHR ''a'']) = [CHR 0xC3, CHR 0xA9] \<and>
   [CHR 0xC3, CHR 0x89, CHR ''a''] \<in> set (Search lower_excerpt
      (fst (NewStaticSearchTree lower_excerpt [''apple'', [CHR 0xC3, CHR 0x89, CHR ''a'']]))
      [CHR 0xC3, CHR 0xA9])"
proof -
  have 1: "[CHR 0xC3, CHR 0x89, CHR ''a''] \<in> set [''apple'', [CHR 0xC3, CHR 0x89, CHR ''a'']]"
    by simp
  have 2: "2 \<in> set (rune_ends [CHR 0xC3, CHR 0x89, CHR ''a''])"
    by (simp add: go_eval)
  have 3: "ToLower lower_excerpt (take 2 [CHR 0xC3, CHR 0x89, CHR ''a'']) = [CHR 0xC3, CHR 0xA9]"
    by (simp add: E_acute_a_lower)
  have 4: "ToLower lower_excerpt (ToLower lower_excerpt (take 2 [CHR 0xC3, CHR 0x89, CHR ''a'']))
      = ToLower lower_excerpt (take 2 [CHR 0xC3, CHR 0x89, CHR ''a''])"
    by (simp only: 3 e_acute_lower)
  from search_complete_at_rune_ends[OF 1 2 4] 1 2 3 show ?thesis by simp
qed

text \<open>Inside a rune the property does not hold. For the word of bytes C3 A9 (a small e with
  acute accent) and \<open>k = 1\<close> the slice is
  the single byte C3, its lower-casing is U+FFFD, and the entry stored under that key is
  empty.\<close>

theorem search_incomplete_inside_rune:
  "[CHR 0xC3, CHR 0xA9] \<in> set [[CHR 0xC3, CHR 0xA9]] \<and> (1::nat) \<le> 1 \<and>
   1 \<le> length [CHR 0xC3, CHR 0xA9] \<and>
   [CHR 0xC3, CHR 0xA9] \<notin> set (Search lower_excerpt
      (fst (NewStaticSearchTree lower_excerpt [[CHR 0xC3, CHR 0xA9]]))
      (ToLower lower_excerpt (take 1 [CHR 0xC3, CHR 0xA9])))"
  by (simp add: index_eval e_acute_lower broken_C3_lower replacement_lower)

text \<open>
  \<^bold>\<open>C2\<close>. For the input \<open>["apple", "app", "application"]\<close>, \<open>Search("app")\<close>
  returns \<open>["app", "apple", "application"]\<close>, and \<open>Size()\<close> returns 12: the three
  prefixes of \<open>app\<close>, two more of \<open>apple\<close> and seven more of \<open>application\<close>.
\<close>

theorem scenario_app_search_and_size:
  "Search tbl (fst (NewStaticSearchTree tbl [''apple'', ''app'', ''application''])) ''app''
     = [''app'', ''apple'', ''application''] \<and>
   Size (fst (NewStaticSearchTree tbl [''apple'', ''app'', ''application''])) = 12"
  by (simp add: index_eval ToLower_def lower_byte_def isASCII_def)

text \<open>The size of that index is not 5.\<close>

theorem scenario_app_size_not_5:
  "Size (fst (NewStaticSearchTree lower_excerpt [''apple'', ''app'', ''application''])) \<noteq> 5"
  by (simp add: index_eval ToLower_def lower_byte_def isASCII_def)

lemma five_words_app:
  "Search lower_excerpt
     (fst (NewStaticSearchTree lower_excerpt [''app'', ''apple'', ''application'', ''apply'', ''approach'']))
     ''app'' = [''app'', ''apple'', ''application'', ''apply'', ''approach'']"
  by (simp add: index_eval ToLower_def lower_byte_def isASCII_def)

text \<open>
  \<^bold>\<open>C3\<close>. For every index, every query \<open>q\<close> and every limit \<open>L \<ge> 0\<close>,
  \<open>SearchWithLimit(q, L)\<close> returns the first \<open>min(L, n)\<close> elements of \<open>Search(q)\<close>, in the
  same order, where \<open>n\<close> is the length of \<open>Search(q)\<close>; the limit 0 gives the empty
  sequence, and every limit greater than \<open>n\<close> gives the whole of \<open>Search(q)\<close>, without
  a panic.
\<close>

theorem SearchWithLimit_truncates:
  "0 \<le> L \<Longrightarrow>
   SearchWithLimit tbl sst q L
     = Inr (take (min (nat L) (length (Search tbl sst q))) (Search tbl sst q)) \<and>
   SearchWithLimit tbl sst q 0 = Inr [] \<and>
   SearchWithLimit tbl sst q (int (length (Search tbl sst q)) + 1 + L) = Inr (Search tbl sst q)"
  by (simp add: SearchWithLimit_def slice_to_def Let_def min_def)

theorem SearchWithLimit_truncates_witness:
  "(0::int) \<le> 2 \<and>
   SearchWithLimit lower_excerpt
     (fst (NewStaticSearchTree lower_excerpt [''app'', ''apple'', ''application'', ''apply'', ''approach'']))
     ''app'' 2 = Inr [''app'', ''apple''] \<and>
   SearchWithLimit lower_excerpt
     (fst (NewStaticSearchTree lower_excerpt [''app'', ''apple'', ''application'', ''apply'', ''approach'']))
     ''app'' 8 = Inr [''app'', ''apple'', ''application'', ''apply'', ''approach'']"
proof -
  have h: "(0::int) \<le> 2" by simp
  from SearchWithLimit_truncates[OF h, of lower_excerpt
      "fst (NewStaticSearchTree lower_excerpt [''app'', ''apple'', ''application'', ''apply'', ''approach''])"
      "''app''"]
  show ?thesis by (simp add: five_words_app)
qed

text \<open>
  \<^bold>\<open>C4\<close>. In the index built from any input list, an entry that contains a word
  contains it exactly once, however many times the word occurs in the input: no entry
  of the final index holds a duplicate.
\<close>

theorem entry_holds_word_once:
  assumes "tree (fst (NewStaticSearchTree tbl words)) p = Some e" and "w \<in> set e"
  shows "count_list e w = 1 \<and> distinct e"
proof -
  from assms(1) have "e = dedup_onto [] (find_matches tbl (sort words) p)"
    by (simp add: NewStaticSearchTree_tree split: if_splits)
  then have "distinct e" by (simp add: entry_distinct)
  with assms(2) show ?thesis by (simp add: distinct_count_list_1)
qed

theorem entry_holds_word_once_witness:
  "1 < count_list [''apple'', ''apple'', ''banana'', ''apple''] ''apple'' \<and>
   tree (fst (NewStaticSearchTree lower_excerpt [''apple'', ''apple'', ''banana'', ''apple'']))
     ''app'' = Some [''apple''] \<and>
   ''apple'' \<in> set [''apple''] \<and> count_list [''apple''] ''apple'' = 1 \<and> distinct [''apple'']"
proof -
  have e: "tree (fst (NewStaticSearchTree lower_excerpt [''apple'', ''apple'', ''banana'', ''apple'']))
     ''app'' = Some [''apple'']"
    by (simp add: index_eval ToLower_def lower_byte_def isASCII_def)
  have w: "''apple'' \<in> set [''apple'']" by simp
  from entry_holds_word_once[OF e w] e show ?thesis by simp
qed

text \<open>
  \<^bold>\<open>C5\<close>. Two input lists with the same set of words, in any order and with any
  multiplicities, give indexes with the same keys and the same entry for every key.
\<close>

theorem build_depends_on_word_set:
  assumes "set words = set words'"
  shows "tree (fst (NewStaticSearchTree tbl words)) = tree (fst (NewStaticSearchTree tbl words'))"
proof (rule ext)
  fix p
  from assms have keys: "p \<in> set (all_keys tbl words) \<longleftrightarrow> p \<in> set (all_keys tbl words')"
    by (simp add: all_keys_iff)
  have "dedup_onto [] (find_matches tbl (sort words) p) = dedup_onto [] (find_matches tbl (sort words') p)"
  proof (rule sorted_distinct_set_unique)
    show "set (dedup_onto [] (find_matches tbl (sort words) p))
        = set (dedup_onto [] (find_matches tbl (sort words') p))"
      using assms by (simp only: entry_set)
  qed (rule entry_sorted entry_distinct)+
  with keys show "tree (fst (NewStaticSearchTree tbl words)) p = tree (fst (NewStaticSearchTree tbl words')) p"
    by (simp add: NewStaticSearchTree_tree)
qed

theorem build_depends_on_word_set_witness:
  "set [''band'', ''app'', ''band'', ''apple''] = set [''apple'', ''band'', ''app''] \<and>
   tree (fst (NewStaticSearchTree lower_excerpt [''band'', ''app'', ''band'', ''apple'']))
     = tree (fst (NewStaticSearchTree lower_excerpt [''apple'', ''band'', ''app'']))"
proof -
  have h: "set [''band'', ''app'', ''band'', ''apple''] = set [''apple'', ''band'', ''app'']"
    by auto
  from build_depends_on_word_set[OF h] h show ?thesis by simp
qed

lemma upper_byte_ascii: "(of_char c :: nat) < 0x80 \<Longrightarrow> (of_char (upper_byte c) :: nat) < 0x80"
  by (auto simp: upper_byte_def less_eq_char_def)

lemma lower_upper_byte: "(of_char c :: nat) < 0x80 \<Longrightarrow> lower_byte (upper_byte c) = lower_byte c"
  by (auto simp: lower_byte_def upper_byte_def less_eq_char_def)

lemma isASCII_map_upper: "isASCII s \<Longrightarrow> isASCII (map upper_byte s)"
  by (induction s) (simp_all add: upper_byte_ascii)

lemma ToLower_ToUpper_ascii: "isASCII s \<Longrightarrow> ToLower tbl (ToUpper up s) = ToLower tbl s"
proof -
  assume a: "isASCII s"
  have "ToLower tbl (ToUpper up s) = map lower_byte (map upper_byte s)"
    using a by (simp add: ToLower_ascii ToUpper_def isASCII_map_upper)
  also have "\<dots> = map lower_byte s"
    using a by (induction s) (simp_all add: lower_upper_byte)
  also have "\<dots> = ToLower tbl s"
    using a by (simp add: ToLower_ascii)
  finally show ?thesis .
qed

lemma dotless_i_eval:
  "ToLower lower_excerpt [CHR 0xC4, CHR 0xB1] = [CHR 0xC4, CHR 0xB1]"
  "ToLower lower_excerpt [CHR 0xC4] = [CHR 0xEF, CHR 0xBF, CHR 0xBD]"
  "ToUpper upper_excerpt [CHR 0xC4, CHR 0xB1] = ''I''"
  "ToLower lower_excerpt ''I'' = ''i''"
  by (simp_all add: go_eval)

lemma e_acute_upper: "ToUpper upper_excerpt [CHR 0xC3, CHR 0xA9] = [CHR 0xC3, CHR 0x89]"
  by (simp add: go_eval)

lemma e_acute_index:
  "Search lower_excerpt (fst (NewStaticSearchTree lower_excerpt [[CHR 0xC3, CHR 0xA9]]))
     [CHR 0xC3, CHR 0xA9] = [[CHR 0xC3, CHR 0xA9]]"
  by (simp add: index_eval e_acute_lower broken_C3_lower)

text \<open>
  \<^bold>\<open>C6\<close>. For every index and every query \<open>q\<close>: if lower-casing the upper-cased query
  gives the same string as lower-casing the query, then \<open>Search(toUpper(q))\<close> and
  \<open>Search(q)\<close> return the same sequence; if lower-casing the lower-cased query changes
  nothing, then \<open>Search(toLower(q))\<close> and \<open>Search(q)\<close> return the same sequence. For a query
  of ASCII characters only both conditions hold, and the three sequences are the same.
\<close>

theorem search_case_insensitive_when_folding_agrees:
  "(ToLower tbl (ToUpper up q) = ToLower tbl q \<longrightarrow>
      Search tbl sst (ToUpper up q) = Search tbl sst q) \<and>
   (ToLower tbl (ToLower tbl q) = ToLower tbl q \<longrightarrow>
      Search tbl sst (ToLower tbl q) = Search tbl sst q) \<and>
   (isASCII q \<longrightarrow>
      Search tbl sst (ToUpper up q) = Search tbl sst q \<and>
      Search tbl sst (ToLower tbl q) = Search tbl sst q)"
proof (intro conjI impI)
  assume "ToLower tbl (ToUpper up q) = ToLower tbl q"
  then show "Search tbl sst (ToUpper up q) = Search tbl sst q"
    by (simp add: Search_def)
next
  assume "ToLower tbl (ToLower tbl q) = ToLower tbl q"
  then show "Search tbl sst (ToLower tbl q) = Search tbl sst q"
    by (simp add: Search_def)
next
  assume "isASCII q"
  then show "Search tbl sst (ToUpper up q) = Search tbl sst q"
    by (simp add: Search_def ToLower_ToUpper_ascii)
next
  assume "isASCII q"
  then show "Search tbl sst (ToLower tbl q) = Search tbl sst q"
    by (simp add: Search_def ToLower_idem_ascii)
qed

text \<open>A query beyond ASCII that meets both conditions, the small e with acute accent (bytes
  C3 A9, upper case C3 89), on the index built from that one word; and the ASCII
  query \<open>App\<close> on the index built from \<open>Apple\<close> and \<open>BANANA\<close>.\<close>

theorem search_case_insensitive_when_folding_agrees_witness:
  "ToLower lower_excerpt (ToUpper upper_excerpt [CHR 0xC3, CHR 0xA9]) = ToLower lower_excerpt [CHR 0xC3, CHR 0xA9] \<and>
   ToLower lower_excerpt (ToLower lower_excerpt [CHR 0xC3, CHR 0xA9]) = ToLower lower_excerpt [CHR 0xC3, CHR 0xA9] \<and>
   Search lower_excerpt (fst (NewStaticSearchTree lower_excerpt [[CHR 0xC3, CHR 0xA9]]))
     (ToUpper upper_excerpt [CHR 0xC3, CHR 0xA9]) = [[CHR 0xC3, CHR 0xA9]] \<and>
   Search lower_excerpt (fst (NewStaticSearchTree lower_excerpt [[CHR 0xC3, CHR 0xA9]]))
     (ToLower lower_excerpt [CHR 0xC3, CHR 0xA9]) = [[CHR 0xC3, CHR 0xA9]] \<and>
   isASCII ''App'' \<and>
   Search lower_excerpt (fst (NewStaticSearchTree lower_excerpt [''Apple'', ''BANANA'']))
     (ToUpper upper_excerpt ''App'')
     = Search lower_excerpt (fst (NewStaticSearchTree lower_excerpt [''Apple'', ''BANANA''])) ''App'' \<and>
   Search lower_excerpt (fst (NewStaticSearchTree lower_excerpt [''Apple'', ''BANANA'']))
     (ToLower lower_excerpt ''App'')
     = Search lower_excerpt (fst (NewStaticSearchTree lower_excerpt [''Apple'', ''BANANA''])) ''App''"
proof -
  have up: "ToLower lower_excerpt (ToUpper upper_excerpt [CHR 0xC3, CHR 0xA9])
      = ToLower lower_excerpt [CHR 0xC3, CHR 0xA9]"
    by (simp only: e_acute_upper E_acute_a_lower(2) e_acute_lower)
  have idem: "ToLower lower_excerpt (ToLower lower_excerpt [CHR 0xC3, CHR 0xA9])
      = ToLower lower_excerpt [CHR 0xC3, CHR 0xA9]"
    by (simp only: e_acute_lower)
  have ascii: "isASCII ''App''"
    by (simp add: isASCII_def)
  from search_case_insensitive_when_folding_agrees[of lower_excerpt upper_excerpt
      "[CHR 0xC3, CHR 0xA9]"
      "fst (NewStaticSearchTree lower_excerpt [[CHR 0xC3, CHR 0xA9]])"]
    search_case_insensitive_when_folding_agrees[of lower_excerpt upper_excerpt "''App''"
      "fst (NewStaticSearchTree lower_excerpt [''Apple'', ''BANANA''])"]
    up idem ascii
  show ?thesis by (simp add: e_acute_index)
qed

text \<open>Without the first condition the property does not hold. Take the query of bytes
  C4 B1, the dotless small i U+0131, on the index built from that one word: its upper
  case is the ASCII letter \<open>I\<close>, whose lower case \<open>i\<close> is not a key.\<close>

theorem search_upper_of_dotless_i_differs:
  "Search lower_excerpt (fst (NewStaticSearchTree lower_excerpt [[CHR 0xC4, CHR 0xB1]])) [CHR 0xC4, CHR 0xB1]
     = [[CHR 0xC4, CHR 0xB1]] \<and>
   Search lower_excerpt (fst (NewStaticSearchTree lower_excerpt [[CHR 0xC4, CHR 0xB1]]))
     (ToUpper upper_excerpt [CHR 0xC4, CHR 0xB1]) = []"
  by (simp add: index_eval dotless_i_eval)

text \<open>
  \<^bold>\<open>C7\<close>. For the index built from any input list, the sequence that \<open>Search\<close> returns
  for any query is in ascending order of the words as strings, and so is every stored
  entry.
\<close>

theorem search_result_sorted:
  "sorted (Search tbl (fst (NewStaticSearchTree tbl words)) q) \<and>
   sorted (case tree (fst (NewStaticSearchTree tbl words)) p of Some e \<Rightarrow> e | None \<Rightarrow> [])"
  by (simp add: Search_NewStaticSearchTree NewStaticSearchTree_tree entry_sorted)

text \<open>
  \<^bold>\<open>C8\<close>. For the index built from any input list, \<open>Search("")\<close> returns the empty
  sequence, and the empty string is not a key of the index.
\<close>

theorem search_empty_query:
  "Search tbl (fst (NewStaticSearchTree tbl words)) [] = [] \<and>
   tree (fst (NewStaticSearchTree tbl words)) [] = None"
proof -
  have no_key: "[] \<notin> set (all_keys tbl words)"
    by (auto simp: all_keys_iff dest!: sym[of "[]"])
  have lower: "ToLower tbl [] = []"
    by (simp add: ToLower_def)
  from no_key show ?thesis
    by (simp add: Search_NewStaticSearchTree NewStaticSearchTree_tree lower)
qed

text \<open>
  \<^bold>\<open>C9\<close>. \<open>NewStaticSearchTree\<close> sorts the caller's slice in place: when it returns, the
  slice holds the same words, as many times each, in ascending order; the slice
  \<open>["b", "a"]\<close> has become \<open>["a", "b"]\<close>.
\<close>

theorem build_sorts_callers_slice:
  "snd (NewStaticSearchTree tbl words) = sort words \<and>
   sorted (snd (NewStaticSearchTree tbl words)) \<and>
   mset (snd (NewStaticSearchTree tbl words)) = mset words \<and>
   snd (NewStaticSearchTree tbl [''b'', ''a'']) = [''a'', ''b'']"
  by (simp add: NewStaticSearchTree_def build_words)

text \<open>
  \<^bold>\<open>C10\<close>. For every query and every limit \<open>L \<ge> 0\<close>, \<open>SearchWithLimit\<close> returns
  normally: the slice expression \<open>matches[:limit]\<close> is evaluated only when
  \<open>limit < len(matches)\<close>, where it is in bounds. For a negative limit the slice
  expression is out of bounds whatever \<open>Search\<close> returned, and \<open>SearchWithLimit\<close>
  panics.
\<close>

theorem SearchWithLimit_in_bounds:
  "(0 \<le> L \<longrightarrow> (\<exists>r. SearchWithLimit tbl sst q L = Inr r)) \<and>
   (L < 0 \<longrightarrow> slice_to (ms :: string list) L = Inl SliceBoundsOutOfRange \<and>
      SearchWithLimit tbl sst q L = Inl SliceBoundsOutOfRange)"
  by (simp add: SearchWithLimit_def slice_to_def Let_def)

theorem SearchWithLimit_in_bounds_witness:
  "(\<exists>r. SearchWithLimit lower_excerpt
      (fst (NewStaticSearchTree lower_excerpt [''app'', ''apple'', ''application'', ''apply'', ''approach'']))
      ''app'' 2 = Inr r) \<and>
   slice_to [''app'', ''apple''] (- 1) = Inl SliceBoundsOutOfRange \<and>
   SearchWithLimit lower_excerpt
      (fst (NewStaticSearchTree lower_excerpt [''app'', ''apple'', ''application'', ''apply'', ''approach'']))
      ''app'' (- 1) = Inl SliceBoundsOutOfRange"
  using SearchWithLimit_in_bounds[of 2 lower_excerpt
      "fst (NewStaticSearchTree lower_excerpt [''app'', ''apple'', ''application'', ''apply'', ''approach''])"
      "''app''"]
    SearchWithLimit_in_bounds[of "- 1" lower_excerpt
      "fst (NewStaticSearchTree lower_excerpt [''app'', ''apple'', ''application'', ''apply'', ''approach''])"
      "''app''" "[''app'', ''apple'']"]
  by simp

end
